theory Spec2Isabelle
  imports Main
begin

section \<open>Python primitives used by V6.py\<close>

text \<open>
  The lists handled by the decoder hold Python integers, so a bit sequence is an
  \<open>int list\<close>; an element other than 0 and 1 is possible and is followed
  through the code. A Python \<open>str\<close> built and consumed inside a function (all of
  them ASCII) is a \<open>string\<close>; the text returned by \<open>ASCII_decode\<close> is a list of
  code points, since \<open>chr\<close> reaches beyond one byte.
\<close>

datatype error = ValueError | OverflowError

type_synonym message = "nat list"

definition codepoints :: "string \<Rightarrow> message" where
  "codepoints s = map of_char s"

definition digit_char :: "nat \<Rightarrow> char" where
  "digit_char d = char_of (48 + d)"

text \<open>
  \<open>str(n)\<close> for an integer: decimal digits, with a minus sign when negative. (The
  limit that recent Python versions put on the conversion of integers of more than
  4300 digits is left out.)
\<close>

function dec_digits :: "nat \<Rightarrow> string" where
  "dec_digits n =
     (if n < 10 then [digit_char n]
      else dec_digits (n div 10) @ [digit_char (n mod 10)])"
  by pat_completeness auto
termination
  by (relation "measure (\<lambda>n. n)") auto

declare dec_digits.simps [simp del]

definition py_str :: "int \<Rightarrow> string" where
  "py_str n = (if n < 0 then CHR ''-'' # dec_digits (nat (- n)) else dec_digits (nat n))"

text \<open>\<open>''.join(map(str, xs))\<close>\<close>

definition join_str :: "int list \<Rightarrow> string" where
  "join_str xs = concat (map py_str xs)"

text \<open>
  \<open>int(s, 2)\<close>: an optional sign, then at least one binary digit; anything else
  raises ValueError. Python also accepts surrounding whitespace, a \<open>0b\<close> prefix
  and single underscores between digits; the strings parsed here are joined from
  \<open>str\<close> of integers and the literal \<open>"0000"\<close>, so they hold only the characters
  \<open>-0123456789\<close> and none of these forms can occur.
\<close>

definition bin_digit :: "char \<Rightarrow> int option" where
  "bin_digit c = (if c = CHR ''0'' then Some 0 else if c = CHR ''1'' then Some 1 else None)"

fun parse_bin :: "int \<Rightarrow> string \<Rightarrow> error + int" where
  "parse_bin acc [] = Inr acc"
| "parse_bin acc (c # cs) =
     (case bin_digit c of
        None \<Rightarrow> Inl ValueError
      | Some d \<Rightarrow> parse_bin (2 * acc + d) cs)"

definition py_int_base2 :: "string \<Rightarrow> error + int" where
  "py_int_base2 s =
     (case s of
        [] \<Rightarrow> Inl ValueError
      | c # cs \<Rightarrow>
          if c = CHR ''-'' \<or> c = CHR ''+'' then
            (if cs = [] then Inl ValueError
             else case parse_bin 0 cs of
                    Inl e \<Rightarrow> Inl e
                  | Inr v \<Rightarrow> Inr (if c = CHR ''-'' then - v else v))
          else parse_bin 0 s)"

text \<open>
  \<open>format(n, '04b')\<close>: binary digits, zero-padded to width 4; the sign of a negative
  number counts in the width.
\<close>

function bin_digits :: "nat \<Rightarrow> string" where
  "bin_digits n =
     (if n < 2 then [digit_char n]
      else bin_digits (n div 2) @ [digit_char (n mod 2)])"
  by pat_completeness auto
termination
  by (relation "measure (\<lambda>n. n)") auto

declare bin_digits.simps [simp del]

definition zfill :: "nat \<Rightarrow> string \<Rightarrow> string" where
  "zfill w s = replicate (w - length s) (CHR ''0'') @ s"

definition format_04b :: "int \<Rightarrow> string" where
  "format_04b n =
     (if n < 0 then CHR ''-'' # zfill 3 (bin_digits (nat (- n)))
      else zfill 4 (bin_digits (nat n)))"

text \<open>
  \<open>chr(v)\<close>: OverflowError outside the range of a C int, ValueError outside
  \<open>range(0x110000)\<close>, the code point otherwise.
\<close>

definition py_chr :: "int \<Rightarrow> error + nat" where
  "py_chr v =
     (if v < - (2 ^ 31) \<or> 2 ^ 31 \<le> v then Inl OverflowError
      else if v < 0 \<or> 1114112 \<le> v then Inl ValueError
      else Inr (nat v))"

text \<open>\<open>xs[lo:hi]\<close> for indices that are not negative.\<close>

definition slice :: "'a list \<Rightarrow> nat \<Rightarrow> nat \<Rightarrow> 'a list" where
  "slice xs lo hi = take (hi - lo) (drop lo xs)"

section \<open>Checksum validation: crcreception\<close>

definition diviseur :: int where
  "diviseur = 9"

text \<open>
  The body of the loop for one block: the data unit, and whether the recomputed
  remainder string equals the received one. The ValueError of \<open>int(..., 2)\<close>
  leaves the function.
\<close>

definition check_bloc :: "int list \<Rightarrow> error + (int list \<times> bool)" where
  "check_bloc bloc =
     (let data_8 = slice bloc 0 8;
          reste_4 = drop 8 bloc;
          data_str = join_str data_8;
          data_plus_0000 = data_str @ ''0000''
      in case py_int_base2 data_plus_0000 of
           Inl e \<Rightarrow> Inl e
         | Inr data_dec \<Rightarrow>
             let reste_calc = data_dec mod diviseur;
                 reste_str = format_04b reste_calc;
                 recu_str = join_str reste_4
             in Inr (data_8, reste_str = recu_str))"

function crc_loop :: "int list \<Rightarrow> nat \<Rightarrow> int list \<Rightarrow> bool \<Rightarrow> error + (int list \<times> bool)" where
  "crc_loop bits idx data_res integrite_ok =
     (if idx + 12 \<le> length bits then
        (case check_bloc (slice bits idx (idx + 12)) of
           Inl e \<Rightarrow> Inl e
         | Inr (data_8, same) \<Rightarrow>
             crc_loop bits (idx + 12) (data_res @ data_8)
               (if \<not> same then False else integrite_ok))
      else Inr (data_res, integrite_ok))"
  by pat_completeness auto
termination
  by (relation "measure (\<lambda>(bits, idx, data_res, integrite_ok). length bits - idx)") auto

declare crc_loop.simps [simp del]

text \<open>
  \<open>Inr (Some data)\<close> is the returned data sequence, \<open>Inr None\<close> is Python's
  \<open>None\<close> (integrity not validated), \<open>Inl\<close> an exception.
\<close>

definition crcreception :: "int list \<Rightarrow> error + int list option" where
  "crcreception bits =
     (case crc_loop bits 0 [] True of
        Inl e \<Rightarrow> Inl e
      | Inr (data_res, integrite_ok) \<Rightarrow> Inr (if integrite_ok then Some data_res else None))"

section \<open>Manchester decoding: Manchester_decode\<close>

text \<open>
  The loop over \<open>range(0, len(bits), 2)\<close>. Both reads are in range: the loop
  condition gives \<open>i < len(bits)\<close> and the \<open>break\<close> guard \<open>i + 1 < len(bits)\<close>.
\<close>

function manchester_loop :: "int list \<Rightarrow> nat \<Rightarrow> int list \<Rightarrow> int list" where
  "manchester_loop bits i decode =
     (if i < length bits then
        (if i + 1 \<ge> length bits then decode
         else
           (if (bits ! i, bits ! (i + 1)) = (1, 0) then
              manchester_loop bits (i + 2) (decode @ [1])
            else if (bits ! i, bits ! (i + 1)) = (0, 1) then
              manchester_loop bits (i + 2) (decode @ [0])
            else manchester_loop bits (i + 2) decode))
      else decode)"
  by pat_completeness auto
termination
  by (relation "measure (\<lambda>(bits, i, decode). length bits - i)") auto

declare manchester_loop.simps [simp del]

definition Manchester_decode :: "int list \<Rightarrow> int list" where
  "Manchester_decode bits = manchester_loop bits 0 []"

section \<open>Frame extraction: trame_reception\<close>

text \<open>
  The pair \<open>(None, None)\<close> is \<open>None\<close>; a returned pair \<open>(data_crc, type_fic)\<close> is
  \<open>Some\<close>. The two negative slice bounds are read after the length test, so
  \<open>bits[-8:]\<close> starts at \<open>len(bits) - 8\<close> and \<open>bits[8:-8]\<close> stops there.
\<close>

definition trame_reception :: "int list \<Rightarrow> (int list \<times> string) option" where
  "trame_reception bits =
     (if length bits < 16 then None
      else
        let fanion_debut = slice bits 0 8;
            fanion_fin = drop (length bits - 8) bits;
            core = slice bits 8 (length bits - 8)
        in if fanion_debut \<noteq> replicate 8 1 \<or> fanion_fin \<noteq> replicate 8 0 then None
           else if length core < 8 then None
           else
             let protocole = slice core 0 8;
                 data_crc = drop 8 core;
                 type_fic = (if protocole = [1, 1, 0, 0, 0, 0, 1, 1] then ''txt'' else ''?'')
             in Some (data_crc, type_fic))"

section \<open>Character assembly: ASCII_decode\<close>

definition placeholder :: message where
  "placeholder = codepoints ''[Protocole inconnu ou bits vides]''"

definition decode_octet :: "int list \<Rightarrow> error + nat" where
  "decode_octet octet =
     (case py_int_base2 (join_str octet) of
        Inl e \<Rightarrow> Inl e
      | Inr val \<Rightarrow> py_chr val)"

function ascii_loop :: "int list \<Rightarrow> nat \<Rightarrow> message \<Rightarrow> error + message" where
  "ascii_loop bits i chaine =
     (if i < length bits then
        (let octet = slice bits i (i + 8)
         in if length octet < 8 then Inr chaine
            else case decode_octet octet of
                   Inl e \<Rightarrow> Inl e
                 | Inr c \<Rightarrow> ascii_loop bits (i + 8) (chaine @ [c]))
      else Inr chaine)"
  by pat_completeness auto
termination
  by (relation "measure (\<lambda>(bits, i, chaine). length bits - i)") auto

declare ascii_loop.simps [simp del]

definition ASCII_decode :: "int list \<Rightarrow> string \<Rightarrow> error + message" where
  "ASCII_decode bits type_fic =
     (if type_fic \<noteq> ''txt'' \<or> bits = [] then Inr placeholder
      else ascii_loop bits 0 [])"

section \<open>The decoding steps of decode_file\<close>

text \<open>
  What \<open>decode_file\<close> does with the Manchester-decoded bits: frame extraction,
  checksum validation and character assembly, each failure ending the decoding.
\<close>

datatype outcome = Trame_error | Crc_error | Decoded message

definition decode_trame :: "int list \<Rightarrow> error + outcome" where
  "decode_trame bits_manch =
     (case trame_reception bits_manch of
        None \<Rightarrow> Inr Trame_error
      | Some (data_crc, type_fic) \<Rightarrow>
          (case crcreception data_crc of
             Inl e \<Rightarrow> Inl e
           | Inr None \<Rightarrow> Inr Crc_error
           | Inr (Some data_ok) \<Rightarrow>
               (case ASCII_decode data_ok type_fic of
                  Inl e \<Rightarrow> Inl e
                | Inr m \<Rightarrow> Inr (Decoded m))))"

section \<open>Demodulation: demodulate_signal\<close>

definition Fe :: nat where
  "Fe = 44100"

definition baud :: nat where
  "baud = 200"

text \<open>
  \<open>Ns = int(Fe/baud)\<close>: the quotient 220.5 is a binary fraction, so the float
  division is exact and \<open>int\<close> truncates it to the integer quotient.
\<close>

definition Ns :: nat where
  "Ns = Fe div baud"

text \<open>
  The samples are floating-point numbers. Their type is left open as \<open>'a\<close>, and the
  three floating-point computations are parameters of the model:
  \<open>porteuse Fe_used j\<close> is the carrier sample \<open>sin(2 * pi * Fp_ASK * (j / Fe_used))\<close>,
  \<open>mult\<close> the product of two samples, and \<open>trapz_pos portion\<close> the test
  \<open>np.trapz(portion) > 0\<close>. The windows and the loop are those of the source.
\<close>

function demod_loop :: "('a list \<Rightarrow> bool) \<Rightarrow> 'a list \<Rightarrow> nat \<Rightarrow> nat \<Rightarrow> int list \<Rightarrow> int list" where
  "demod_loop trapz_pos produit N i bits =
     (if i < N then
        demod_loop trapz_pos produit N (i + Ns)
          (bits @ [if trapz_pos (slice produit i (i + Ns)) then 1 else 0])
      else bits)"
  by pat_completeness auto
termination
  by (relation "measure (\<lambda>(trapz_pos, produit, N, i, bits). N - i)")
    (auto simp: Ns_def Fe_def baud_def)

declare demod_loop.simps [simp del]

definition demodulate_signal ::
  "('r \<Rightarrow> nat \<Rightarrow> 'a) \<Rightarrow> ('a \<Rightarrow> 'a \<Rightarrow> 'a) \<Rightarrow> ('a list \<Rightarrow> bool) \<Rightarrow> 'a list \<Rightarrow> 'r \<Rightarrow> int list" where
  "demodulate_signal porteuse mult trapz_pos signal Fe_used =
     (let N = length signal;
          produit = map2 mult signal (map (porteuse Fe_used) [0..<N])
      in demod_loop trapz_pos produit N 0 [])"

section \<open>Notions of the specification\<close>

text \<open>A bit sequence: every element is the integer 0 or the integer 1.\<close>

definition is_bits :: "int list \<Rightarrow> bool" where
  "is_bits bs = list_all (\<lambda>b. b = 0 \<or> b = 1) bs"

text \<open>A bit sequence read as an unsigned binary integer, first bit most significant.\<close>

definition unsigned :: "int list \<Rightarrow> int" where
  "unsigned bs = foldl (\<lambda>acc b. 2 * acc + b) 0 bs"

text \<open>The 4-bit binary rendering of a number below 16, as bits.\<close>

definition bin4 :: "int \<Rightarrow> int list" where
  "bin4 r = [r div 8 mod 2, r div 4 mod 2, r div 2 mod 2, r mod 2]"

text \<open>
  The complete blocks of \<open>n\<close> elements of a sequence, consecutive and not
  overlapping; trailing elements that do not fill a block belong to none.
\<close>

function chunks :: "nat \<Rightarrow> 'a list \<Rightarrow> 'a list list" where
  "chunks n xs =
     (if 0 < n \<and> n \<le> length xs then take n xs # chunks n (drop n xs) else [])"
  by pat_completeness auto
termination
  by (relation "measure (\<lambda>(n, xs). length xs)") auto

declare chunks.simps [simp del]

text \<open>
  A 12-bit block verifies when the 4-bit rendering of its data unit, read as an
  unsigned integer, times 16, modulo 9, equals its checksum unit.
\<close>

definition block_verifies :: "int list \<Rightarrow> bool" where
  "block_verifies bloc = (bin4 ((unsigned (take 8 bloc) * 16) mod 9) = drop 8 bloc)"

text \<open>The character of a bit in a string.\<close>

definition bit_char :: "int \<Rightarrow> char" where
  "bit_char b = (if b = 0 then CHR ''0'' else CHR ''1'')"

text \<open>One bit of a sequence inverted.\<close>

definition flip_bit :: "nat \<Rightarrow> int list \<Rightarrow> int list" where
  "flip_bit i bs = bs[i := 1 - bs ! i]"

text \<open>
  The consecutive non-overlapping pairs of a sequence, left to right; a final
  unpaired element belongs to none. The Manchester value of a pair.
\<close>

fun pairs_of :: "'a list \<Rightarrow> ('a \<times> 'a) list" where
  "pairs_of (b1 # b2 # rest) = (b1, b2) # pairs_of rest"
| "pairs_of [b] = []"
| "pairs_of [] = []"

definition pair_bit :: "int \<times> int \<Rightarrow> int option" where
  "pair_bit p = (if p = (1, 0) then Some 1 else if p = (0, 1) then Some 0 else None)"

text \<open>The quotient rounded up.\<close>

definition ceil_div :: "nat \<Rightarrow> nat \<Rightarrow> nat" where
  "ceil_div n d = (n + d - 1) div d"

text \<open>The samples per symbol as the specification computes them, from the rate passed in.\<close>

definition samples_per_symbol_spec :: "nat \<Rightarrow> nat" where
  "samples_per_symbol_spec Fe_used = Fe_used div baud"

text \<open>A 12-bit checksum block for a byte value: 8 data bits, then the 4-bit remainder.\<close>

definition byte_bits :: "int \<Rightarrow> int list" where
  "byte_bits v = bin4 (v div 16) @ bin4 (v mod 16)"

definition encode_block :: "int \<Rightarrow> int list" where
  "encode_block v = byte_bits v @ bin4 ((v * 16) mod 9)"

text \<open>
  An instance of the floating-point operations over the integers, to run the
  demodulator on concrete signals: a carrier that is 1 at every sample, the integer
  product, and the sign test on the doubled trapezoidal sum.
\<close>

definition porteuse_int :: "nat \<Rightarrow> nat \<Rightarrow> int" where
  "porteuse_int Fe_used j = 1"

fun trapz2_int :: "int list \<Rightarrow> int" where
  "trapz2_int (y0 # y1 # ys) = y0 + y1 + trapz2_int (y1 # ys)"
| "trapz2_int [y0] = 0"
| "trapz2_int [] = 0"

definition trapz_pos_int :: "int list \<Rightarrow> bool" where
  "trapz_pos_int portion = (0 < trapz2_int portion)"

section \<open>Auxiliary facts\<close>

subsection \<open>Strings of bits\<close>

lemma py_str_0: "py_str 0 = ''0''" by code_simp
lemma py_str_1: "py_str 1 = ''1''" by code_simp

lemma is_bits_Nil [simp]: "is_bits []" by (simp add: is_bits_def)
lemma is_bits_Cons [simp]: "is_bits (b # bs) \<longleftrightarrow> (b = 0 \<or> b = 1) \<and> is_bits bs"
  by (simp add: is_bits_def)
lemma is_bits_append [simp]: "is_bits (xs @ ys) \<longleftrightarrow> is_bits xs \<and> is_bits ys"
  by (simp add: is_bits_def)
lemma is_bits_take: "is_bits xs \<Longrightarrow> is_bits (take n xs)"
  by (auto simp: is_bits_def list_all_iff dest: in_set_takeD)
lemma is_bits_drop: "is_bits xs \<Longrightarrow> is_bits (drop n xs)"
  by (auto simp: is_bits_def list_all_iff dest: in_set_dropD)

lemma join_str_bits: "is_bits bs \<Longrightarrow> join_str bs = map bit_char bs"
  by (induction bs) (auto simp: join_str_def py_str_0 py_str_1 bit_char_def)

lemma parse_bin_bits:
  "is_bits bs \<Longrightarrow> parse_bin acc (map bit_char bs @ s) = parse_bin (foldl (\<lambda>a b. 2 * a + b) acc bs) s"
  by (induction bs arbitrary: acc) (auto simp: bit_char_def bin_digit_def)

lemma parse_bin_0000: "parse_bin acc ''0000'' = Inr (acc * 16)"
  by (simp add: bin_digit_def)

lemma py_int_base2_bits_0000:
  assumes "is_bits bs"
  shows "py_int_base2 (join_str bs @ ''0000'') = Inr (unsigned bs * 16)"
proof -
  have "py_int_base2 (map bit_char bs @ ''0000'') = parse_bin 0 (map bit_char bs @ ''0000'')"
    using assms by (cases bs) (auto simp: py_int_base2_def bit_char_def)
  also have "\<dots> = Inr (unsigned bs * 16)"
    using assms by (simp only: parse_bin_bits parse_bin_0000 unsigned_def)
  finally show ?thesis
    using assms by (simp add: join_str_bits)
qed

lemma py_int_base2_bits:
  assumes "is_bits bs" and "bs \<noteq> []"
  shows "py_int_base2 (join_str bs) = Inr (unsigned bs)"
proof -
  have "py_int_base2 (map bit_char bs) = parse_bin 0 (map bit_char bs @ [])"
    using assms by (cases bs) (auto simp: py_int_base2_def bit_char_def)
  also have "\<dots> = Inr (unsigned bs)"
    using assms(1) by (simp only: parse_bin_bits parse_bin.simps unsigned_def)
  finally show ?thesis
    using assms by (simp add: join_str_bits)
qed

lemma format_04b_bin4:
  assumes "0 \<le> r" and "r < 16"
  shows "format_04b r = map bit_char (bin4 r)"
proof -
  have "r \<in> {0, 1, 2, 3, 4, 5, 6, 7, 8, 9, 10, 11, 12, 13, 14, 15}"
    using assms by (simp; arith)
  moreover have "\<forall>x \<in> {0, 1, 2, 3, 4, 5, 6, 7, 8, 9, 10, 11, 12, 13, 14, 15 :: int}.
      format_04b x = map bit_char (bin4 x)"
    by code_simp
  ultimately show ?thesis by blast
qed

lemma is_bits_bin4: "is_bits (bin4 r)"
  unfolding bin4_def is_bits_def by (simp; presburger)

lemma map_bit_char_eq:
  assumes "is_bits xs" and "is_bits ys"
  shows "map bit_char xs = map bit_char ys \<longleftrightarrow> xs = ys"
proof -
  have "inj_on bit_char (set xs \<union> set ys)"
    using assms by (auto simp: inj_on_def is_bits_def list_all_iff bit_char_def)
  then show ?thesis by (rule inj_on_map_eq_map)
qed

lemma check_bloc_bits:
  assumes "is_bits bloc"
  shows "check_bloc bloc = Inr (take 8 bloc, block_verifies bloc)"
proof -
  let ?D = "take 8 bloc" and ?R = "drop 8 bloc"
  let ?r = "(unsigned ?D * 16) mod 9"
  have D: "is_bits ?D" and R: "is_bits ?R"
    using assms by (simp_all add: is_bits_take is_bits_drop)
  have r: "0 \<le> ?r" "?r < 16" by simp_all
  have "format_04b ?r = join_str ?R \<longleftrightarrow> bin4 ?r = ?R"
    using format_04b_bin4 [OF r] join_str_bits [OF R] map_bit_char_eq [OF is_bits_bin4 R]
    by simp
  then show ?thesis
    by (simp add: check_bloc_def slice_def diviseur_def py_int_base2_bits_0000 [OF D]
        block_verifies_def Let_def)
qed


lemma crc_loop_bits:
  assumes "is_bits bits"
  shows "crc_loop bits idx acc ok =
    Inr (acc @ concat (map (take 8) (chunks 12 (drop idx bits))),
         ok \<and> list_all block_verifies (chunks 12 (drop idx bits)))"
  using assms
proof (induction bits idx acc ok rule: crc_loop.induct)
  case (1 bits idx data_res integrite_ok)
  show ?case
  proof (cases "idx + 12 \<le> length bits")
    case True
    let ?bloc = "slice bits idx (idx + 12)"
    have bloc: "?bloc = take 12 (drop idx bits)" by (simp add: slice_def)
    have cb: "check_bloc ?bloc = Inr (take 8 ?bloc, block_verifies ?bloc)"
      using "1.prems" by (simp add: check_bloc_bits bloc is_bits_take is_bits_drop)
    have bl: "chunks 12 (drop idx bits) = ?bloc # chunks 12 (drop (idx + 12) bits)"
      using True by (subst chunks.simps) (simp add: bloc add.commute)
    have IH: "crc_loop bits (idx + 12) (data_res @ take 8 ?bloc)
                (if \<not> block_verifies ?bloc then False else integrite_ok) =
              Inr ((data_res @ take 8 ?bloc) @ concat (map (take 8) (chunks 12 (drop (idx + 12) bits))),
                   (if \<not> block_verifies ?bloc then False else integrite_ok) \<and>
                   list_all block_verifies (chunks 12 (drop (idx + 12) bits)))"
      using "1.IH" [OF True cb refl "1.prems"] .
    show ?thesis
      by (subst crc_loop.simps) (auto simp: True cb IH bl)
  next
    case False
    then have "chunks 12 (drop idx bits) = []"
      by (subst chunks.simps) simp
    with False show ?thesis
      by (subst crc_loop.simps) simp
  qed
qed


subsection \<open>Complete blocks\<close>

lemma length_chunks: "0 < n \<Longrightarrow> length (chunks n xs) = length xs div n"
proof (induction n xs rule: chunks.induct)
  case (1 n xs)
  show ?case
  proof (cases "n \<le> length xs")
    case True
    with 1 have "length (chunks n (drop n xs)) = (length xs - n) div n" by simp
    with True "1.prems" show ?thesis
      by (subst chunks.simps) (simp add: le_div_geq)
  next
    case False
    with "1.prems" show ?thesis by (subst chunks.simps) simp
  qed
qed

lemma nth_chunks:
  "0 < n \<Longrightarrow> k < length xs div n \<Longrightarrow> chunks n xs ! k = take n (drop (n * k) xs)"
proof (induction n xs arbitrary: k rule: chunks.induct)
  case (1 n xs)
  from "1.prems" have le: "n \<le> length xs"
    by (metis div_less not_less not_less_zero)
  have unf: "chunks n xs = take n xs # chunks n (drop n xs)"
    using le "1.prems"(1) by (subst chunks.simps) simp
  show ?case
  proof (cases k)
    case 0
    then show ?thesis by (simp add: unf)
  next
    case (Suc j)
    from "1.prems" le Suc have "j < length (drop n xs) div n"
      by (simp add: le_div_geq)
    with 1 le have "chunks n (drop n xs) ! j = take n (drop (n * j) (drop n xs))" by simp
    then show ?thesis by (simp add: unf Suc add.commute)
  qed
qed

lemma set_chunks_length: "c \<in> set (chunks n xs) \<Longrightarrow> length c = n"
proof (induction n xs rule: chunks.induct)
  case (1 n xs)
  show ?case
  proof (cases "0 < n \<and> n \<le> length xs")
    case True
    with "1.prems" have "c = take n xs \<or> c \<in> set (chunks n (drop n xs))"
      by (subst (asm) chunks.simps) simp
    with True 1 show ?thesis by auto
  next
    case False
    with "1.prems" show ?thesis by (subst (asm) chunks.simps) simp
  qed
qed

lemma length_concat_take8_chunks12:
  "length (concat (map (take 8) (chunks 12 xs))) = 8 * (length xs div 12)"
proof -
  have "map (length \<circ> take 8) (chunks 12 xs) = replicate (length (chunks 12 xs)) 8"
    by (rule map_replicate_const [THEN subst], rule map_cong) (auto dest: set_chunks_length)
  then show ?thesis
    by (simp add: length_concat length_chunks sum_list_replicate)
qed

subsection \<open>Unsigned values and single bit flips\<close>

lemma foldl_bin_shift:
  "foldl (\<lambda>acc b. 2 * acc + b) a bs = a * 2 ^ length bs + foldl (\<lambda>acc b. 2 * acc + b) (0::int) bs"
proof (induction bs arbitrary: a)
  case Nil
  then show ?case by simp
next
  case (Cons b bs)
  have "foldl (\<lambda>acc b. 2 * acc + b) a (b # bs) = (2 * a + b) * 2 ^ length bs + foldl (\<lambda>acc b. 2 * acc + b) 0 bs"
    using Cons [of "2 * a + b"] by simp
  moreover have "foldl (\<lambda>acc b. 2 * acc + b) 0 (b # bs) = b * 2 ^ length bs + foldl (\<lambda>acc b. 2 * acc + b) 0 bs"
    using Cons [of b] by simp
  ultimately show ?case by (simp add: algebra_simps)
qed

lemma unsigned_Nil [simp]: "unsigned [] = 0"
  by (simp add: unsigned_def)

lemma unsigned_Cons: "unsigned (b # bs) = b * 2 ^ length bs + unsigned bs"
  using foldl_bin_shift [of b bs] by (simp add: unsigned_def)

lemma unsigned_append: "unsigned (xs @ ys) = unsigned xs * 2 ^ length ys + unsigned ys"
  by (induction xs) (simp_all add: unsigned_Cons power_add algebra_simps)

lemma unsigned_bounds: "is_bits bs \<Longrightarrow> 0 \<le> unsigned bs \<and> unsigned bs < 2 ^ length bs"
  by (induction bs) (auto simp: unsigned_Cons)

lemma unsigned_update:
  "i < length bs \<Longrightarrow> unsigned (bs[i := v]) = unsigned bs + (v - bs ! i) * 2 ^ (length bs - 1 - i)"
proof (induction bs arbitrary: i)
  case Nil
  then show ?case by simp
next
  case (Cons b bs)
  then show ?case
    by (cases i) (simp_all add: unsigned_Cons algebra_simps)
qed

lemma unsigned_bin4:
  assumes "0 \<le> r" and "r < 16"
  shows "unsigned (bin4 r) = r"
proof -
  have "r \<in> {0, 1, 2, 3, 4, 5, 6, 7, 8, 9, 10, 11, 12, 13, 14, 15}"
    using assms by (simp; arith)
  moreover have "\<forall>x \<in> {0, 1, 2, 3, 4, 5, 6, 7, 8, 9, 10, 11, 12, 13, 14, 15 :: int}.
      unsigned (bin4 x) = x"
    by (simp add: bin4_def unsigned_def)
  ultimately show ?thesis by blast
qed

lemma length_bin4 [simp]: "length (bin4 r) = 4"
  by (simp add: bin4_def)

lemma is_bits_flip_bit: "is_bits bs \<Longrightarrow> is_bits (flip_bit i bs)"
  unfolding is_bits_def flip_bit_def list_all_length
  by (cases "i < length bs") (auto simp: nth_list_update)

lemma chunks_single: "0 < n \<Longrightarrow> length xs = n \<Longrightarrow> chunks n xs = [xs]"
  by (subst chunks.simps, subst chunks.simps) simp

lemma not_9_dvd_pow2: "\<not> (9::int) dvd 2 ^ k"
proof (induction k)
  case 0
  show ?case by simp
next
  case (Suc k)
  have "coprime (9::int) 2" by simp
  then have "(9::int) dvd 2 * 2 ^ k \<longleftrightarrow> (9::int) dvd 2 ^ k"
    by (rule coprime_dvd_mult_right_iff)
  with Suc show ?case by simp
qed

lemma flip_changes_remainder:
  assumes "is_bits D" and "i < length D"
  shows "(unsigned (flip_bit i D) * 16) mod 9 \<noteq> (unsigned D * 16) mod 9"
proof
  let ?k = "length D - 1 - i"
  assume eq: "(unsigned (flip_bit i D) * 16) mod 9 = (unsigned D * 16) mod 9"
  from assms have b: "D ! i = 0 \<or> D ! i = 1"
    by (auto simp: is_bits_def list_all_length)
  have u: "unsigned (flip_bit i D) = unsigned D + (1 - D ! i - D ! i) * 2 ^ ?k"
    using assms(2) by (simp add: flip_bit_def unsigned_update)
  from eq have "(9::int) dvd unsigned (flip_bit i D) * 16 - unsigned D * 16"
    by (simp add: mod_eq_dvd_iff)
  then have d: "(9::int) dvd (1 - D ! i - D ! i) * 2 ^ (?k + 4)"
    by (simp add: u algebra_simps power_add)
  have "(9::int) dvd 2 ^ (?k + 4)"
  proof (cases "D ! i = 0")
    case True
    with d show ?thesis by simp
  next
    case False
    with b have "D ! i = 1" by simp
    with d have "(9::int) dvd - (2 ^ (?k + 4))" by simp
    then show ?thesis by (simp only: dvd_minus_iff)
  qed
  then show False by (rule not_9_dvd_pow2 [THEN notE])
qed

subsection \<open>One block\<close>

lemma crcreception_single:
  assumes "is_bits bloc" and "length bloc = 12"
  shows "crcreception bloc = Inr (if block_verifies bloc then Some (take 8 bloc) else None)"
  using assms by (simp add: crcreception_def crc_loop_bits chunks_single)

lemma block_verifies_flip:
  assumes "is_bits bloc" and "i < 8" and "8 \<le> length bloc" and "block_verifies bloc"
  shows "\<not> block_verifies (flip_bit i bloc)"
proof
  assume f: "block_verifies (flip_bit i bloc)"
  let ?D = "take 8 bloc"
  have D: "is_bits ?D" and i: "i < length ?D"
    using assms by (simp_all add: is_bits_take)
  have t: "take 8 (flip_bit i bloc) = flip_bit i ?D"
    using assms(2) by (simp add: flip_bit_def take_update_swap)
  have d: "drop 8 (flip_bit i bloc) = drop 8 bloc"
    using assms(2) by (simp add: flip_bit_def)
  from f assms(4) have "bin4 ((unsigned (flip_bit i ?D) * 16) mod 9) = bin4 ((unsigned ?D * 16) mod 9)"
    by (simp add: block_verifies_def t d)
  then have "unsigned (bin4 ((unsigned (flip_bit i ?D) * 16) mod 9)) = unsigned (bin4 ((unsigned ?D * 16) mod 9))"
    by simp
  then have "(unsigned (flip_bit i ?D) * 16) mod 9 = (unsigned ?D * 16) mod 9"
    by (simp add: unsigned_bin4)
  with flip_changes_remainder [OF D i] show False by simp
qed

lemma remainder_range: "0 \<le> (v * 16) mod diviseur \<and> (v * 16) mod diviseur \<le> 8"
  by (simp add: diviseur_def)

lemma length_format_04b: "0 \<le> r \<Longrightarrow> r < 16 \<Longrightarrow> length (format_04b r) = 4"
  by (simp add: format_04b_bin4)

lemma block_verifies_high_checksum:
  assumes "is_bits R" and "length D = 8" and "9 \<le> unsigned R"
  shows "\<not> block_verifies (D @ R)"
proof
  assume "block_verifies (D @ R)"
  with assms(2) have "bin4 ((unsigned D * 16) mod 9) = R"
    by (simp add: block_verifies_def)
  then have "unsigned (bin4 ((unsigned D * 16) mod 9)) = unsigned R" by simp
  then have "(unsigned D * 16) mod 9 = unsigned R"
    by (simp add: unsigned_bin4)
  moreover have "(unsigned D * 16) mod 9 < 9" by simp
  ultimately show False using assms(3) by simp
qed

subsection \<open>Pairs\<close>

lemma pair_bit_10: "pair_bit (1, 0) = Some 1"
  by (simp add: pair_bit_def)

lemma pair_bit_01: "pair_bit (0, 1) = Some 0"
  by (simp add: pair_bit_def)

lemma pair_bit_other: "p \<noteq> (1, 0) \<Longrightarrow> p \<noteq> (0, 1) \<Longrightarrow> pair_bit p = None"
  by (simp add: pair_bit_def)

lemma pairs_of_short: "length xs < 2 \<Longrightarrow> pairs_of xs = []"
  by (cases xs rule: pairs_of.cases) simp_all

lemma manchester_loop_pairs:
  "manchester_loop bits i decode = decode @ List.map_filter pair_bit (pairs_of (drop i bits))"
proof (induction bits i decode rule: manchester_loop.induct)
  case (1 bits i decode)
  let ?p = "(bits ! i, bits ! (i + 1))"
  let ?rest = "List.map_filter pair_bit (pairs_of (drop (i + 2) bits))"
  show ?case
  proof (cases "i + 1 < length bits")
    case True
    then have d: "drop i bits = bits ! i # bits ! (i + 1) # drop (i + 2) bits"
      by (metis Cons_nth_drop_Suc Suc_eq_plus1 add_2_eq_Suc' add_lessD1)
    then have pr: "pairs_of (drop i bits) = ?p # pairs_of (drop (i + 2) bits)"
      by simp
    from True have a: "i < length bits" "\<not> length bits \<le> i + 1" by simp_all
    consider (one) "?p = (1, 0)" | (zero) "?p \<noteq> (1, 0)" "?p = (0, 1)"
      | (other) "?p \<noteq> (1, 0)" "?p \<noteq> (0, 1)"
      by blast
    then show ?thesis
    proof cases
      case one
      then have "manchester_loop bits i decode = manchester_loop bits (i + 2) (decode @ [1])"
        using a by (subst manchester_loop.simps) simp
      also have "\<dots> = (decode @ [1]) @ ?rest"
        using "1.IH"(1) a one by simp
      finally show ?thesis
        using one by (simp add: pr map_filter_simps pair_bit_10)
    next
      case zero
      then have "manchester_loop bits i decode = manchester_loop bits (i + 2) (decode @ [0])"
        using a by (subst manchester_loop.simps) simp
      also have "\<dots> = (decode @ [0]) @ ?rest"
        using "1.IH"(2) a zero by simp
      finally show ?thesis
        using zero by (simp add: pr map_filter_simps pair_bit_01)
    next
      case other
      then have "manchester_loop bits i decode = manchester_loop bits (i + 2) decode"
        using a by (subst manchester_loop.simps) auto
      also have "\<dots> = decode @ ?rest"
        using "1.IH"(3) a other by simp
      finally show ?thesis
        using pair_bit_other [OF other] by (simp add: pr map_filter_simps)
    qed
  next
    case False
    then have "length (drop i bits) < 2" by simp
    then have "pairs_of (drop i bits) = []"
      by (rule pairs_of_short)
    with False show ?thesis
      by (subst manchester_loop.simps) (simp add: map_filter_simps)
  qed
qed

lemma length_pairs_of: "length (pairs_of xs) = length xs div 2"
  by (induction xs rule: pairs_of.induct) simp_all

lemma nth_pairs_of: "k < length xs div 2 \<Longrightarrow> pairs_of xs ! k = (xs ! (2 * k), xs ! (2 * k + 1))"
proof (induction xs arbitrary: k rule: pairs_of.induct)
  case (1 b1 b2 rest)
  then show ?case by (cases k) simp_all
qed simp_all

lemma length_map_filter_le: "length (List.map_filter f xs) \<le> length xs"
  by (induction xs) (simp_all add: map_filter_simps split: option.split)

lemma map_filter_all_Some:
  "\<forall>x \<in> set xs. f x \<noteq> None \<Longrightarrow> List.map_filter f xs = map (\<lambda>x. the (f x)) xs"
  by (induction xs) (auto simp: map_filter_simps split: option.split)


lemma Manchester_decode_map_filter:
  "Manchester_decode bits = List.map_filter pair_bit (pairs_of bits)"
  by (simp add: Manchester_decode_def manchester_loop_pairs)

subsection \<open>Frames and characters\<close>

lemma decode_octet_bits:
  assumes "is_bits octet" and "length octet = 8"
  shows "decode_octet octet = Inr (nat (unsigned octet))"
proof -
  from assms(2) have ne: "octet \<noteq> []" by auto
  have "0 \<le> unsigned octet" "unsigned octet < 256"
    using unsigned_bounds [OF assms(1)] assms(2) by simp_all
  then show ?thesis
    by (simp add: decode_octet_def py_int_base2_bits [OF assms(1) ne] py_chr_def)
qed

lemma ascii_loop_bits:
  assumes "is_bits bits"
  shows "ascii_loop bits i chaine =
    Inr (chaine @ map (\<lambda>g. nat (unsigned g)) (chunks 8 (drop i bits)))"
  using assms
proof (induction bits i chaine rule: ascii_loop.induct)
  case (1 bits i chaine)
  let ?octet = "slice bits i (i + 8)"
  have oct: "?octet = take 8 (drop i bits)" by (simp add: slice_def)
  show ?case
  proof (cases "i + 8 \<le> length bits")
    case True
    then have i: "i < length bits" and l: "length ?octet = 8" by (simp_all add: oct)
    have b: "is_bits ?octet"
      using "1.prems" by (simp add: oct is_bits_take is_bits_drop)
    have dec: "decode_octet ?octet = Inr (nat (unsigned ?octet))"
      using b l by (rule decode_octet_bits)
    have ch: "chunks 8 (drop i bits) = ?octet # chunks 8 (drop (i + 8) bits)"
      using True by (subst chunks.simps) (simp add: oct add.commute)
    have IH: "ascii_loop bits (i + 8) (chaine @ [nat (unsigned ?octet)]) =
        Inr ((chaine @ [nat (unsigned ?octet)]) @
             map (\<lambda>g. nat (unsigned g)) (chunks 8 (drop (i + 8) bits)))"
      using "1.IH" [OF i refl _ dec "1.prems"] l by simp
    show ?thesis
      using i l by (subst ascii_loop.simps) (simp add: Let_def dec IH ch)
  next
    case False
    then have "chunks 8 (drop i bits) = []"
      by (subst chunks.simps) simp
    moreover from False have "length ?octet < 8" by (simp add: oct)
    ultimately show ?thesis
      by (subst ascii_loop.simps) (simp add: Let_def)
  qed
qed

lemma concat_chunks: "0 < n \<Longrightarrow> n dvd length xs \<Longrightarrow> concat (chunks n xs) = xs"
proof (induction n xs rule: chunks.induct)
  case (1 n xs)
  show ?case
  proof (cases "n \<le> length xs")
    case True
    from "1.prems" True have "n dvd length (drop n xs)"
      by (simp add: dvd_diff_nat)
    with 1 True have "concat (chunks n (drop n xs)) = drop n xs" by simp
    with True "1.prems" show ?thesis
      by (subst chunks.simps) simp
  next
    case False
    with "1.prems" have "length xs = 0"
      by (metis dvd_imp_le not_gr_zero)
    with False "1.prems" show ?thesis by (subst chunks.simps) simp
  qed
qed

lemma is_bits_concat: "(\<forall>c \<in> set cs. is_bits c) \<Longrightarrow> is_bits (concat cs)"
  by (induction cs) simp_all

lemma is_bits_chunks: "is_bits xs \<Longrightarrow> c \<in> set (chunks n xs) \<Longrightarrow> is_bits c"
proof (induction n xs rule: chunks.induct)
  case (1 n xs)
  show ?case
  proof (cases "0 < n \<and> n \<le> length xs")
    case True
    with "1.prems" have "c = take n xs \<or> c \<in> set (chunks n (drop n xs))"
      by (subst (asm) chunks.simps) simp
    with True 1 show ?thesis by (auto simp: is_bits_take is_bits_drop)
  next
    case False
    with "1.prems" show ?thesis by (subst (asm) chunks.simps) simp
  qed
qed

lemma is_bits_data_units: "is_bits xs \<Longrightarrow> is_bits (concat (map (take 8) (chunks 12 xs)))"
  by (rule is_bits_concat) (auto simp: is_bits_take dest: is_bits_chunks)

subsection \<open>Symbol windows\<close>

lemma div220_first: "0 < n \<Longrightarrow> (n + 219) div 220 = Suc ((n + 219 - 220) div (220::nat))"
  by (rule le_div_geq) simp_all

lemma div220_small: "0 < n \<Longrightarrow> n \<le> 220 \<Longrightarrow> (n + 219 - 220) div 220 = (0::nat)"
  by (rule div_less) simp

lemma div220_small': "n \<le> 220 \<Longrightarrow> (n - 220 + 219) div 220 = (0::nat)"
  by simp

lemma div220_large: "\<not> n \<le> 220 \<Longrightarrow> n + 219 - 220 = n - 220 + (219::nat)"
  by simp

lemma ceil_div_220_step:
  assumes "0 < n"
  shows "(n + 219) div 220 = Suc ((n - 220 + 219) div (220::nat))"
proof (cases "n \<le> 220")
  case True
  show ?thesis
    by (simp only: div220_first [OF assms] div220_small [OF assms True] div220_small' [OF True])
next
  case False
  show ?thesis
    by (simp only: div220_first [OF assms] div220_large [OF False])
qed

lemma Ns_220: "Ns = 220"
  by (simp add: Ns_def Fe_def baud_def)

lemma ceil_div_220: "ceil_div n 220 = (n + 219) div 220"
  by (simp add: ceil_div_def)

lemma ceil_div_Ns_step: "0 < n \<Longrightarrow> ceil_div n Ns = Suc (ceil_div (n - Ns) Ns)"
  by (simp only: Ns_220 ceil_div_220 ceil_div_220_step)

lemma length_demod_loop:
  "length (demod_loop trapz_pos produit N i bits) = length bits + ceil_div (N - i) Ns"
proof (induction trapz_pos produit N i bits rule: demod_loop.induct)
  case (1 trapz_pos produit N i bits)
  show ?case
  proof (cases "i < N")
    case True
    then have "ceil_div (N - i) Ns = Suc (ceil_div (N - i - Ns) Ns)"
      by (simp add: ceil_div_Ns_step)
    with True "1.IH" show ?thesis
      by (subst demod_loop.simps) simp
  next
    case False
    then have "ceil_div (N - i) Ns = 0"
      by (simp add: Ns_220 ceil_div_220)
    with False show ?thesis
      by (subst demod_loop.simps) simp
  qed
qed

lemma length_demodulate_signal:
  "length (demodulate_signal porteuse mult trapz_pos signal Fe_used) = ceil_div (length signal) Ns"
  by (simp add: demodulate_signal_def Let_def length_demod_loop)






section \<open>Checksum validation\<close>

text \<open>
  C1. For every bit sequence, \<open>crcreception\<close> returns the concatenation of the
  8-bit data units of the complete 12-bit blocks exactly when every complete block
  verifies (the 4-bit binary rendering of the data unit read as an unsigned integer,
  times 16, modulo 9, equals the 4 received checksum bits); as soon as one block does
  not verify it returns \<open>None\<close>, and no partial data.
\<close>

theorem crcreception_all_or_nothing:
  assumes "is_bits bits"
  shows "crcreception bits =
           Inr (if list_all block_verifies (chunks 12 bits)
                then Some (concat (map (take 8) (chunks 12 bits))) else None) \<and>
         length (chunks 12 bits) = length bits div 12 \<and>
         (\<forall>k < length bits div 12. chunks 12 bits ! k = take 12 (drop (12 * k) bits))"
proof (intro conjI allI impI)
  have "crc_loop bits 0 [] True =
      Inr (concat (map (take 8) (chunks 12 bits)), list_all block_verifies (chunks 12 bits))"
    using crc_loop_bits [OF assms, of 0 "[]" True] by simp
  then show "crcreception bits =
      Inr (if list_all block_verifies (chunks 12 bits)
           then Some (concat (map (take 8) (chunks 12 bits))) else None)"
    by (simp add: crcreception_def)
  show "length (chunks 12 bits) = length bits div 12"
    by (simp add: length_chunks)
  show "chunks 12 bits ! k = take 12 (drop (12 * k) bits)" if "k < length bits div 12" for k
    using that by (simp add: nth_chunks)
qed

theorem crcreception_all_or_nothing_witness:
  "is_bits [0,1,0,0,1,0,0,0, 0,0,0,0, 0,1,0,0,1,0,0,1, 0,1,1,1, 1] \<and>
   crcreception [0,1,0,0,1,0,0,0, 0,0,0,0, 0,1,0,0,1,0,0,1, 0,1,1,1, 1] =
     Inr (Some [0,1,0,0,1,0,0,0, 0,1,0,0,1,0,0,1]) \<and>
   is_bits [0,1,0,0,1,0,0,0, 0,0,0,0, 0,1,0,0,1,0,0,1, 0,1,1,0] \<and>
   crcreception [0,1,0,0,1,0,0,0, 0,0,0,0, 0,1,0,0,1,0,0,1, 0,1,1,0] = Inr None"
proof -
  let ?good = "[0,1,0,0,1,0,0,0, 0,0,0,0, 0,1,0,0,1,0,0,1, 0,1,1,1, 1] :: int list"
  let ?bad = "[0,1,0,0,1,0,0,0, 0,0,0,0, 0,1,0,0,1,0,0,1, 0,1,1,0] :: int list"
  have g: "is_bits ?good" and b: "is_bits ?bad"
    by (simp_all add: is_bits_def)
  have cg: "chunks 12 ?good = [[0,1,0,0,1,0,0,0, 0,0,0,0], [0,1,0,0,1,0,0,1, 0,1,1,1]]"
    by code_simp
  have cb: "chunks 12 ?bad = [[0,1,0,0,1,0,0,0, 0,0,0,0], [0,1,0,0,1,0,0,1, 0,1,1,0]]"
    by code_simp
  have vg: "list_all block_verifies (chunks 12 ?good)"
    unfolding cg by (simp add: block_verifies_def unsigned_def bin4_def)
  have vb: "\<not> list_all block_verifies (chunks 12 ?bad)"
    unfolding cb by (simp add: block_verifies_def unsigned_def bin4_def)
  have "crcreception ?good = Inr (Some [0,1,0,0,1,0,0,0, 0,1,0,0,1,0,0,1])"
    using crcreception_all_or_nothing [OF g, THEN conjunct1] vg by (simp add: cg)
  moreover have "crcreception ?bad = Inr None"
    using crcreception_all_or_nothing [OF b, THEN conjunct1] vb by simp
  ultimately show ?thesis using g b by blast
qed

text \<open>
  C2. For every 12-bit block of bits that verifies, inverting exactly one of the 8
  data bits, the 4 checksum bits unchanged, gives a block that does not verify: on the
  block \<open>crcreception\<close> returns its data unit, on the corrupted block \<open>None\<close>, for
  every one of the 8 positions.
\<close>

theorem single_data_bit_flip_detected:
  assumes "is_bits bloc" and "length bloc = 12" and "i < 8" and "block_verifies bloc"
  shows "\<not> block_verifies (flip_bit i bloc) \<and>
         crcreception bloc = Inr (Some (take 8 bloc)) \<and>
         crcreception (flip_bit i bloc) = Inr None"
proof -
  have nv: "\<not> block_verifies (flip_bit i bloc)"
    using assms(1) assms(3) _ assms(4) by (rule block_verifies_flip) (simp add: assms(2))
  have "is_bits (flip_bit i bloc)"
    using assms(1) by (rule is_bits_flip_bit)
  moreover have "length (flip_bit i bloc) = 12"
    using assms(2) by (simp add: flip_bit_def)
  ultimately have "crcreception (flip_bit i bloc) = Inr None"
    using nv by (simp add: crcreception_single)
  moreover have "crcreception bloc = Inr (Some (take 8 bloc))"
    using assms by (simp add: crcreception_single)
  ultimately show ?thesis using nv by simp
qed

theorem single_data_bit_flip_detected_witness:
  "is_bits [0,1,0,0,1,0,0,0, 0,0,0,0] \<and> length [0,1,0,0,1,0,0,0, 0,0,0,0 :: int] = 12 \<and>
   (3::nat) < 8 \<and> block_verifies [0,1,0,0,1,0,0,0, 0,0,0,0] \<and>
   flip_bit 3 [0,1,0,0,1,0,0,0, 0,0,0,0] = [0,1,0,1,1,0,0,0, 0,0,0,0] \<and>
   crcreception [0,1,0,0,1,0,0,0, 0,0,0,0] = Inr (Some [0,1,0,0,1,0,0,0]) \<and>
   crcreception [0,1,0,1,1,0,0,0, 0,0,0,0] = Inr None"
proof -
  let ?b = "[0,1,0,0,1,0,0,0, 0,0,0,0] :: int list"
  have b: "is_bits ?b" and l: "length ?b = 12" and i: "(3::nat) < 8"
    by (simp_all add: is_bits_def)
  have v: "block_verifies ?b"
    by (simp add: block_verifies_def unsigned_def bin4_def)
  have f: "flip_bit 3 ?b = [0,1,0,1,1,0,0,0, 0,0,0,0]"
    by (simp add: flip_bit_def)
  show ?thesis
    using single_data_bit_flip_detected [OF b l i v] b v by (simp add: f)
qed

text \<open>
  C10. For every 8-bit data unit the recomputed checksum value (the data unit read as
  an unsigned integer, times 16, modulo 9) lies between 0 and 8, and its rendering by
  \<open>format(..., '04b')\<close> has exactly 4 characters; so a 12-bit block whose 4 received
  checksum bits encode a number from 9 to 15 never verifies, whatever its data unit.
\<close>

theorem checksum_above_8_never_verifies:
  assumes "is_bits D" and "length D = 8" and "is_bits R" and "length R = 4"
    and "9 \<le> unsigned R"
  shows "0 \<le> (unsigned D * 16) mod diviseur \<and> (unsigned D * 16) mod diviseur \<le> 8 \<and>
         length (format_04b ((unsigned D * 16) mod diviseur)) = 4 \<and>
         unsigned R \<le> 15 \<and>
         check_bloc (D @ R) = Inr (D, False) \<and>
         crcreception (D @ R) = Inr None"
proof -
  have r: "0 \<le> (unsigned D * 16) mod diviseur" "(unsigned D * 16) mod diviseur \<le> 8"
    using remainder_range [of "unsigned D"] by simp_all
  then have len: "length (format_04b ((unsigned D * 16) mod diviseur)) = 4"
    by (simp add: length_format_04b)
  have R15: "unsigned R \<le> 15"
    using unsigned_bounds [OF assms(3)] assms(4) by simp
  have nv: "\<not> block_verifies (D @ R)"
    using assms(3) assms(2) assms(5) by (rule block_verifies_high_checksum)
  have bits: "is_bits (D @ R)" and l12: "length (D @ R) = 12"
    using assms by simp_all
  have "check_bloc (D @ R) = Inr (D, False)"
    using nv assms(2) by (simp add: check_bloc_bits [OF bits])
  moreover have "crcreception (D @ R) = Inr None"
    using nv by (simp add: crcreception_single [OF bits l12])
  ultimately show ?thesis using r len R15 by simp
qed

theorem checksum_above_8_never_verifies_witness:
  "is_bits [0,1,0,0,1,0,0,0] \<and> length [0,1,0,0,1,0,0,0 :: int] = 8 \<and>
   is_bits [1,0,0,1] \<and> length [1,0,0,1 :: int] = 4 \<and> unsigned [1,0,0,1] = 9 \<and>
   unsigned [0,1,0,0,1,0,0,0] = 72 \<and> (72 * 16) mod diviseur = 0 \<and>
   format_04b 0 = ''0000'' \<and>
   crcreception [0,1,0,0,1,0,0,0, 1,0,0,1] = Inr None"
proof -
  let ?D = "[0,1,0,0,1,0,0,0] :: int list" and ?R = "[1,0,0,1] :: int list"
  have D: "is_bits ?D" and lD: "length ?D = 8" and R: "is_bits ?R" and lR: "length ?R = 4"
    by (simp_all add: is_bits_def)
  have uR: "unsigned ?R = 9" and uD: "unsigned ?D = 72"
    by (simp_all add: unsigned_def)
  have nine: "9 \<le> unsigned ?R" by (simp add: uR)
  have f: "format_04b 0 = ''0000''" by code_simp
  have m: "(72 * 16) mod diviseur = 0" by (simp add: diviseur_def)
  show ?thesis
    using checksum_above_8_never_verifies [OF D lD R lR nine] D R uR uD f m by simp
qed

section \<open>Manchester decoding\<close>

text \<open>
  C3. \<open>Manchester_decode\<close> reads the consecutive non-overlapping pairs left to
  right (pair \<open>k\<close> is made of the elements \<open>2k\<close> and \<open>2k+1\<close>, a final unpaired
  element belongs to no pair), gives 1 for the pair (1,0), 0 for the pair (0,1) and
  nothing for any other pair, and has no failing branch. Its output is never longer
  than half the input, rounded down; when every pair is (1,0) or (0,1) the output has
  one bit per pair, the \<open>k\<close>-th being the value of the \<open>k\<close>-th pair.
\<close>

theorem Manchester_decode_pairwise:
  "Manchester_decode bits = List.map_filter pair_bit (pairs_of bits) \<and>
   length (pairs_of bits) = length bits div 2 \<and>
   (\<forall>k < length bits div 2. pairs_of bits ! k = (bits ! (2 * k), bits ! (2 * k + 1))) \<and>
   length (Manchester_decode bits) \<le> length bits div 2 \<and>
   ((\<forall>k < length bits div 2. pairs_of bits ! k = (1, 0) \<or> pairs_of bits ! k = (0, 1)) \<longrightarrow>
      length (Manchester_decode bits) = length bits div 2 \<and>
      (\<forall>k < length bits div 2.
         Manchester_decode bits ! k = (if pairs_of bits ! k = (1, 0) then 1 else 0)))"
proof -
  let ?ps = "pairs_of bits"
  have eq: "Manchester_decode bits = List.map_filter pair_bit ?ps"
    by (rule Manchester_decode_map_filter)
  have len: "length ?ps = length bits div 2"
    by (rule length_pairs_of)
  have le: "length (Manchester_decode bits) \<le> length bits div 2"
    using length_map_filter_le [of pair_bit ?ps] by (simp add: eq len)
  have full: "length (Manchester_decode bits) = length bits div 2 \<and>
      (\<forall>k < length bits div 2.
         Manchester_decode bits ! k = (if ?ps ! k = (1, 0) then 1 else 0))"
    if valid: "\<forall>k < length bits div 2. ?ps ! k = (1, 0) \<or> ?ps ! k = (0, 1)"
  proof -
    have some: "\<forall>p \<in> set ?ps. pair_bit p \<noteq> None"
    proof
      fix p assume "p \<in> set ?ps"
      then obtain k where "k < length ?ps" and "?ps ! k = p"
        by (auto simp: in_set_conv_nth)
      with valid len have "p = (1, 0) \<or> p = (0, 1)" by auto
      then show "pair_bit p \<noteq> None" by (auto simp: pair_bit_def)
    qed
    have m: "Manchester_decode bits = map (\<lambda>p. the (pair_bit p)) ?ps"
      using map_filter_all_Some [OF some] by (simp add: eq)
    have "Manchester_decode bits ! k = (if ?ps ! k = (1, 0) then 1 else 0)"
      if "k < length bits div 2" for k
    proof -
      from that valid have "?ps ! k = (1, 0) \<or> ?ps ! k = (0, 1)" by simp
      then have "the (pair_bit (?ps ! k)) = (if ?ps ! k = (1, 0) then 1 else 0)"
        by (auto simp: pair_bit_def)
      with that show ?thesis by (simp add: m len)
    qed
    then show ?thesis by (simp add: m len)
  qed
  show ?thesis
    using eq len le full nth_pairs_of [of _ bits] by blast
qed

theorem Manchester_decode_pairwise_witness:
  "pairs_of [1, 0, 0, 1, 1, 0 :: int] = [(1, 0), (0, 1), (1, 0)] \<and>
   Manchester_decode [1, 0, 0, 1, 1, 0] = [1, 0, 1] \<and>
   Manchester_decode [1, 0, 1, 1, 0, 0, 0, 1, 1] = [1, 0]"
proof -
  have "List.map_filter pair_bit (pairs_of [1, 0, 0, 1, 1, 0]) = [1, 0, 1]"
    by (simp add: map_filter_simps pair_bit_def)
  moreover have "List.map_filter pair_bit (pairs_of [1, 0, 1, 1, 0, 0, 0, 1, 1]) = [1, 0]"
    by (simp add: map_filter_simps pair_bit_def)
  ultimately show ?thesis
    using Manchester_decode_pairwise [of "[1, 0, 0, 1, 1, 0]"]
      Manchester_decode_pairwise [of "[1, 0, 1, 1, 0, 0, 0, 1, 1]"]
    by simp
qed

section \<open>Frame extraction\<close>

text \<open>
  C6, as stated, at the 16-bit sequence of the two flags alone: its length is 16, its
  first 8 bits are ones and its last 8 bits zeros, and \<open>trame_reception\<close> returns
  \<open>(None, None)\<close>.
\<close>

theorem trame_reception_16_counterexample:
  "16 \<le> length [1,1,1,1,1,1,1,1, 0,0,0,0,0,0,0,0 :: int] \<and>
   take 8 [1,1,1,1,1,1,1,1, 0,0,0,0,0,0,0,0 :: int] = replicate 8 1 \<and>
   drop (length [1,1,1,1,1,1,1,1, 0,0,0,0,0,0,0,0 :: int] - 8)
     [1,1,1,1,1,1,1,1, 0,0,0,0,0,0,0,0 :: int] = replicate 8 0 \<and>
   trame_reception [1,1,1,1,1,1,1,1, 0,0,0,0,0,0,0,0] = None"
  by (simp add: trame_reception_def slice_def eval_nat_numeral)

text \<open>
  C6, amended. For every sequence of length at least 24 whose first 8 elements are
  ones and whose last 8 are zeros, \<open>trame_reception\<close> returns the elements between
  the 8-bit protocol identifier and the end flag, with the kind \<open>txt\<close> when the
  identifier is 11000011 and the kind \<open>?\<close> for every other identifier; for every
  shorter sequence, and whenever a flag differs, it returns \<open>(None, None)\<close>.
\<close>

theorem trame_reception_frame:
  "trame_reception bits =
     (if 24 \<le> length bits \<and> take 8 bits = replicate 8 1 \<and>
         drop (length bits - 8) bits = replicate 8 0
      then Some (take (length bits - 24) (drop 16 bits),
                 if take 8 (drop 8 bits) = [1, 1, 0, 0, 0, 0, 1, 1] then ''txt'' else ''?'')
      else None)"
proof (cases "length bits < 16")
  case True
  then show ?thesis by (simp add: trame_reception_def)
next
  case False
  then have core: "length (slice bits 8 (length bits - 8)) = length bits - 16"
    by (simp add: slice_def)
  have dc: "drop 8 (slice bits 8 (length bits - 8)) = take (length bits - 24) (drop 16 bits)"
    by (simp add: slice_def drop_take)
  have pr: "slice (slice bits 8 (length bits - 8)) 0 8 = take 8 (drop 8 bits)"
    if "24 \<le> length bits"
    using that by (simp add: slice_def min_def)
  show ?thesis
  proof (cases "24 \<le> length bits")
    case True
    with False show ?thesis
      by (simp add: trame_reception_def Let_def core dc pr) (simp add: slice_def)
  next
    case False
    then have "length bits - 16 < 8" by arith
    with False \<open>\<not> length bits < 16\<close> show ?thesis
      by (simp add: trame_reception_def Let_def core)
  qed
qed

theorem trame_reception_frame_witness:
  "trame_reception [1,1,1,1,1,1,1,1, 1,1,0,0,0,0,1,1, 0,1,1, 0,0,0,0,0,0,0,0] =
     Some ([0,1,1], ''txt'') \<and>
   trame_reception [1,1,1,1,1,1,1,1, 1,0,0,0,0,0,1,1, 0,0,0,0,0,0,0,0] = Some ([], ''?'') \<and>
   trame_reception [1,1,1,0,1,1,1,1, 1,1,0,0,0,0,1,1, 0,0,0,0,0,0,0,0] = None"
  using trame_reception_frame [of "[1,1,1,1,1,1,1,1, 1,1,0,0,0,0,1,1, 0,1,1, 0,0,0,0,0,0,0,0]"]
    trame_reception_frame [of "[1,1,1,1,1,1,1,1, 1,0,0,0,0,0,1,1, 0,0,0,0,0,0,0,0]"]
    trame_reception_frame [of "[1,1,1,0,1,1,1,1, 1,1,0,0,0,0,1,1, 0,0,0,0,0,0,0,0]"]
  by (simp add: eval_nat_numeral)

section \<open>Character assembly\<close>

text \<open>
  C7. When the kind is not \<open>txt\<close> or the sequence is empty, \<open>ASCII_decode\<close> returns
  the placeholder string and decodes nothing. Otherwise, for a bit sequence, it
  returns the string with one character per complete group of 8 bits, group \<open>k\<close>
  being the bits \<open>8k .. 8k+7\<close>, the character having the group's unsigned value as
  code point; a trailing group of fewer than 8 bits gives no character and no error.
\<close>

theorem ASCII_decode_groups:
  "((type_fic \<noteq> ''txt'' \<or> bits = []) \<longrightarrow> ASCII_decode bits type_fic = Inr placeholder) \<and>
   (is_bits bits \<and> bits \<noteq> [] \<longrightarrow>
      ASCII_decode bits ''txt'' = Inr (map (\<lambda>g. nat (unsigned g)) (chunks 8 bits)) \<and>
      length (chunks 8 bits) = length bits div 8 \<and>
      (\<forall>k < length bits div 8. chunks 8 bits ! k = take 8 (drop (8 * k) bits)))"
proof -
  have "ASCII_decode bits type_fic = Inr placeholder" if "type_fic \<noteq> ''txt'' \<or> bits = []"
    using that by (auto simp: ASCII_decode_def)
  moreover have "ASCII_decode bits ''txt'' = Inr (map (\<lambda>g. nat (unsigned g)) (chunks 8 bits))"
    if "is_bits bits" "bits \<noteq> []"
    using that by (simp add: ASCII_decode_def ascii_loop_bits)
  moreover have "length (chunks 8 bits) = length bits div 8"
    by (simp add: length_chunks)
  moreover have "\<forall>k < length bits div 8. chunks 8 bits ! k = take 8 (drop (8 * k) bits)"
    by (simp add: nth_chunks)
  ultimately show ?thesis by blast
qed

theorem ASCII_decode_groups_witness:
  "ASCII_decode [0,1,0,0,1,0,0,0] ''?'' = Inr placeholder \<and>
   ASCII_decode [] ''txt'' = Inr placeholder \<and>
   is_bits [0,1,0,0,1,0,0,0, 0,1,0,0,1,0,0,1, 1,0,1] \<and>
   ASCII_decode [0,1,0,0,1,0,0,0, 0,1,0,0,1,0,0,1, 1,0,1] ''txt'' = Inr (codepoints ''HI'')"
proof -
  let ?b = "[0,1,0,0,1,0,0,0, 0,1,0,0,1,0,0,1, 1,0,1] :: int list"
  have b: "is_bits ?b" by (simp add: is_bits_def)
  have c: "chunks 8 ?b = [[0,1,0,0,1,0,0,0], [0,1,0,0,1,0,0,1]]" by code_simp
  have v: "[nat (unsigned [0,1,0,0,1,0,0,0]), nat (unsigned [0,1,0,0,1,0,0,1])] = codepoints ''HI''"
    by (simp add: unsigned_def codepoints_def)
  have "ASCII_decode ?b ''txt'' = Inr (codepoints ''HI'')"
    using ASCII_decode_groups [of "''txt''" ?b] b by (simp add: c v)
  moreover have "ASCII_decode [0,1,0,0,1,0,0,0] ''?'' = Inr placeholder"
    using ASCII_decode_groups [of "''?''" "[0,1,0,0,1,0,0,0]"] by simp
  moreover have "ASCII_decode [] ''txt'' = Inr placeholder"
    using ASCII_decode_groups [of "''txt''" "[]"] by simp
  ultimately show ?thesis using b by simp
qed

section \<open>Demodulation\<close>

text \<open>
  C4. The number of bits is claimed to be \<open>ceil(sampleCount / samplesPerSymbol)\<close>
  with \<open>samplesPerSymbol\<close> the sample rate passed in divided by 200, rounded down.
  \<open>demodulate_signal\<close> takes the rate passed in for the carrier only; its windows
  keep the width \<open>Ns\<close> that the module computes from the global rate 44100. On a
  signal of 220 samples with the rate 8000 the count claimed is 6 and the demodulator
  returns 1 bit; with the rate 44100 the two counts agree.
\<close>

theorem demodulate_signal_rate_8000:
  "0 < (8000::nat) \<and>
   length (replicate 220 (0::int)) = 220 \<and>
   ceil_div 220 (samples_per_symbol_spec 8000) = 6 \<and>
   length (demodulate_signal porteuse_int (*) trapz_pos_int (replicate 220 (0::int)) (8000::nat)) = 1 \<and>
   ceil_div 220 (samples_per_symbol_spec 44100) = 1 \<and>
   length (demodulate_signal porteuse_int (*) trapz_pos_int (replicate 220 (0::int)) (44100::nat)) = 1"
proof -
  have "ceil_div 220 (samples_per_symbol_spec 8000) = 6"
    by (simp add: ceil_div_def samples_per_symbol_spec_def baud_def)
  moreover have "ceil_div 220 (samples_per_symbol_spec 44100) = 1"
    by (simp add: ceil_div_def samples_per_symbol_spec_def baud_def)
  moreover have "ceil_div 220 Ns = 1"
    by (simp add: ceil_div_def Ns_220)
  ultimately show ?thesis
    by (simp add: length_demodulate_signal)
qed




section \<open>Validated data and character assembly\<close>

text \<open>
  C9. When \<open>crcreception\<close> succeeds on a bit sequence, the data it returns has
  exactly \<open>8 * (len(bits) div 12)\<close> bits, a multiple of 8. Fed to \<open>ASCII_decode\<close>,
  every group the loop takes (at the indices that are multiples of 8) has 8 bits, so
  the \<open>break\<close> on a short group is never reached, and the groups decoded make up
  the whole data: no bit is dropped at that stage.
\<close>

theorem crcreception_output_whole_bytes:
  assumes "is_bits bits" and "crcreception bits = Inr (Some d)"
  shows "length d = 8 * (length bits div 12) \<and>
         length d mod 8 = 0 \<and>
         (\<forall>i. i < length d \<and> i mod 8 = 0 \<longrightarrow> length (slice d i (i + 8)) = 8) \<and>
         concat (chunks 8 d) = d \<and>
         (d \<noteq> [] \<longrightarrow>
            ASCII_decode d ''txt'' = Inr (map (\<lambda>g. nat (unsigned g)) (chunks 8 d)) \<and>
            8 * length (chunks 8 d) = length d)"
proof -
  from assms have d: "d = concat (map (take 8) (chunks 12 bits))"
    by (simp add: crcreception_def crc_loop_bits split: if_splits)
  have len: "length d = 8 * (length bits div 12)"
    by (simp add: d length_concat_take8_chunks12)
  then have dvd: "8 dvd length d" by simp
  have bits: "is_bits d"
    unfolding d using assms(1) by (rule is_bits_data_units)
  have full: "length (slice d i (i + 8)) = 8" if "i < length d" "i mod 8 = 0" for i
  proof -
    from that(2) have "8 dvd i" by (rule mod_0_imp_dvd)
    with dvd have "8 dvd length d - i" by (rule dvd_diff_nat)
    moreover from that(1) have "0 < length d - i" by simp
    ultimately have "8 \<le> length d - i" by (rule dvd_imp_le)
    then show ?thesis by (simp add: slice_def)
  qed
  have cc: "concat (chunks 8 d) = d"
    using dvd by (simp add: concat_chunks)
  have nch: "8 * length (chunks 8 d) = length d"
    using dvd by (simp add: length_chunks)
  have dec: "ASCII_decode d ''txt'' = Inr (map (\<lambda>g. nat (unsigned g)) (chunks 8 d))"
    if "d \<noteq> []"
    using that bits by (simp add: ASCII_decode_def ascii_loop_bits)
  from dvd have m: "length d mod 8 = 0" by (rule dvd_imp_mod_0)
  show ?thesis
  proof (intro conjI allI impI)
    show "length d = 8 * (length bits div 12)" by (rule len)
    show "length d mod 8 = 0" by (rule m)
    show "length (slice d i (i + 8)) = 8" if "i < length d \<and> i mod 8 = 0" for i
      using full [of i] that by simp
    show "concat (chunks 8 d) = d" by (rule cc)
    show "ASCII_decode d ''txt'' = Inr (map (\<lambda>g. nat (unsigned g)) (chunks 8 d))" if "d \<noteq> []"
      using that by (rule dec)
    show "8 * length (chunks 8 d) = length d" by (rule nch)
  qed
qed

theorem crcreception_output_whole_bytes_witness:
  "is_bits [0,1,0,0,1,0,0,0, 0,0,0,0, 0,1,0,0,1,0,0,1, 0,1,1,1, 1,0,1] \<and>
   crcreception [0,1,0,0,1,0,0,0, 0,0,0,0, 0,1,0,0,1,0,0,1, 0,1,1,1, 1,0,1] =
     Inr (Some [0,1,0,0,1,0,0,0, 0,1,0,0,1,0,0,1]) \<and>
   length [0,1,0,0,1,0,0,0, 0,1,0,0,1,0,0,1 :: int] = 8 * (27 div 12) \<and>
   ASCII_decode [0,1,0,0,1,0,0,0, 0,1,0,0,1,0,0,1] ''txt'' = Inr (codepoints ''HI'')"
proof -
  let ?b = "[0,1,0,0,1,0,0,0, 0,0,0,0, 0,1,0,0,1,0,0,1, 0,1,1,1, 1,0,1] :: int list"
  let ?d = "[0,1,0,0,1,0,0,0, 0,1,0,0,1,0,0,1] :: int list"
  have b: "is_bits ?b" by (simp add: is_bits_def)
  have c: "crcreception ?b = Inr (Some ?d)" by code_simp
  have ch: "chunks 8 ?d = [[0,1,0,0,1,0,0,0], [0,1,0,0,1,0,0,1]]" by code_simp
  have v: "[nat (unsigned [0,1,0,0,1,0,0,0]), nat (unsigned [0,1,0,0,1,0,0,1])] = codepoints ''HI''"
    by (simp add: unsigned_def codepoints_def)
  note h = crcreception_output_whole_bytes [OF b c]
  from h have "?d \<noteq> [] \<longrightarrow>
      ASCII_decode ?d ''txt'' = Inr (map (\<lambda>g. nat (unsigned g)) (chunks 8 ?d)) \<and>
      8 * length (chunks 8 ?d) = length ?d"
    by (elim conjE)
  then have "ASCII_decode ?d ''txt'' = Inr (codepoints ''HI'')"
    by (simp add: ch v)
  with b c show ?thesis by simp
qed

section \<open>End to end\<close>

text \<open>
  C8. The frame made of the start flag, the text protocol identifier, the two
  checksum blocks of the bytes 72 (\<open>H\<close>) and 73 (\<open>I\<close>), each the 8 data bits
  followed by the 4-bit rendering of the byte times 16 modulo 9, and the end flag:
  frame extraction, checksum validation and character assembly each succeed, and the
  decoding gives the string \<open>HI\<close>.
\<close>

theorem decode_HI:
  "replicate 8 1 @ [1,1,0,0,0,0,1,1] @ encode_block 72 @ encode_block 73 @ replicate 8 0 =
     [1,1,1,1,1,1,1,1, 1,1,0,0,0,0,1,1, 0,1,0,0,1,0,0,0, 0,0,0,0,
      0,1,0,0,1,0,0,1, 0,1,1,1, 0,0,0,0,0,0,0,0] \<and>
   trame_reception
     (replicate 8 1 @ [1,1,0,0,0,0,1,1] @ encode_block 72 @ encode_block 73 @ replicate 8 0) =
     Some (encode_block 72 @ encode_block 73, ''txt'') \<and>
   crcreception (encode_block 72 @ encode_block 73) = Inr (Some (byte_bits 72 @ byte_bits 73)) \<and>
   ASCII_decode (byte_bits 72 @ byte_bits 73) ''txt'' = Inr (codepoints ''HI'') \<and>
   decode_trame
     (replicate 8 1 @ [1,1,0,0,0,0,1,1] @ encode_block 72 @ encode_block 73 @ replicate 8 0) =
     Inr (Decoded (codepoints ''HI''))"
proof -
  have e72: "encode_block 72 = [0,1,0,0,1,0,0,0, 0,0,0,0]"
    and e73: "encode_block 73 = [0,1,0,0,1,0,0,1, 0,1,1,1]"
    and b72: "byte_bits 72 = [0,1,0,0,1,0,0,0]" and b73: "byte_bits 73 = [0,1,0,0,1,0,0,1]"
    by (simp_all add: encode_block_def byte_bits_def bin4_def)
  have r: "replicate 8 (1::int) = [1,1,1,1,1,1,1,1]" "replicate 8 (0::int) = [0,0,0,0,0,0,0,0]"
    by (simp_all add: eval_nat_numeral)
  have t: "trame_reception [1,1,1,1,1,1,1,1, 1,1,0,0,0,0,1,1, 0,1,0,0,1,0,0,0, 0,0,0,0,
      0,1,0,0,1,0,0,1, 0,1,1,1, 0,0,0,0,0,0,0,0] =
      Some ([0,1,0,0,1,0,0,0, 0,0,0,0, 0,1,0,0,1,0,0,1, 0,1,1,1], ''txt'')"
    by (simp add: trame_reception_def slice_def Let_def r)
  have c: "crcreception [0,1,0,0,1,0,0,0, 0,0,0,0, 0,1,0,0,1,0,0,1, 0,1,1,1] =
      Inr (Some [0,1,0,0,1,0,0,0, 0,1,0,0,1,0,0,1])"
    by code_simp
  have a: "ASCII_decode [0,1,0,0,1,0,0,0, 0,1,0,0,1,0,0,1] ''txt'' = Inr (codepoints ''HI'')"
    by code_simp
  show ?thesis
    by (simp add: e72 e73 b72 b73 r t c a decode_trame_def)
qed

theorem decode_HI_witness:
  "decode_trame [1,1,1,1,1,1,1,1, 1,1,0,0,0,0,1,1, 0,1,0,0,1,0,0,0, 0,0,0,0,
      0,1,0,0,1,0,0,1, 0,1,1,1, 0,0,0,0,0,0,0,0] = Inr (Decoded [72, 73])"
proof -
  note h = decode_HI
  from h have e: "replicate 8 1 @ [1,1,0,0,0,0,1,1] @ encode_block 72 @ encode_block 73 @ replicate 8 0 =
     [1,1,1,1,1,1,1,1, 1,1,0,0,0,0,1,1, 0,1,0,0,1,0,0,0, 0,0,0,0,
      0,1,0,0,1,0,0,1, 0,1,1,1, 0,0,0,0,0,0,0,0 :: int]"
    by (rule conjunct1)
  from h have "decode_trame
     (replicate 8 1 @ [1,1,0,0,0,0,1,1] @ encode_block 72 @ encode_block 73 @ replicate 8 0) =
     Inr (Decoded (codepoints ''HI''))"
    by (elim conjE)
  then show ?thesis
    unfolding e by (simp add: codepoints_def)
qed

end
